theory Spec2Isabelle
  imports Main "HOL-Library.AList" "HOL-Library.Sublist"
begin

section \<open>The call-signaling relay of the chat server\<close>

text \<open>
  The WebSocket part of \<^verbatim>\<open>registerRoutes\<close> keeps two JavaScript maps,
  \<^verbatim>\<open>connections\<close> (user id to socket) and \<^verbatim>\<open>activeCalls\<close> (call id to call
  record), and one closure variable \<^verbatim>\<open>userId\<close> per socket. Every handler runs to
  completion without awaiting, so a handler is one atomic step on that state.

  A socket object is identified by a number. The payloads \<^verbatim>\<open>offer\<close>, \<^verbatim>\<open>answer\<close>,
  \<^verbatim>\<open>candidate\<close> and \<^verbatim>\<open>callerName\<close> are JSON values the relay only copies; they are
  strings here.
\<close>

subsection \<open>Data\<close>

type_synonym conn = nat
type_synonym payload = string

datatype ready_state = CONNECTING | OPEN | CLOSING | CLOSED

datatype call_type = Voice | Video

datatype call_status = Ringing | Active | Ended

text \<open>
  The value type of \<^verbatim>\<open>activeCalls\<close>. The caller id is the closure variable
  \<^verbatim>\<open>userId!\<close>, which is \<^verbatim>\<open>null\<close> at run time when the socket never registered.
\<close>

record call =
  callId :: string
  callerId :: "string option"
  receiverId :: string
  type' :: call_type
  status :: call_status

text \<open>
  The messages a client sends. \<open>Unknown\<close> stands for every frame the \<^verbatim>\<open>switch\<close>
  has no case for and for every frame whose handling throws into the \<^verbatim>\<open>catch\<close>
  before any effect (text that is not JSON, a JSON \<^verbatim>\<open>null\<close>).
\<close>

datatype message =
    Register string
  | CallOffer string payload call_type payload
  | CallAnswer string payload
  | CallReject string
  | CallEnd string
  | IceCandidate string payload
  | Unknown

text \<open>
  The messages the relay sends: \<open>CallOffer receiverId offer callType callerName\<close>
  above; below \<open>IncomingCall callId callerId callerName callType offer\<close> and
  \<open>CallEnded callId reason\<close>, the reason being absent on an explicit hang-up.
\<close>

datatype out_message =
    CallInitiated string
  | IncomingCall string "string option" payload call_type payload
  | CallFailed string
  | CallAnswered string payload
  | CallRejected string
  | CallEnded string "string option"
  | IceCandidateOut string payload

text \<open>
  The state. \<^verbatim>\<open>activeCalls\<close> is an association list in insertion order, which is
  the order a JavaScript \<^verbatim>\<open>Map\<close> iterates in; \<open>sent\<close> logs every call of
  \<^verbatim>\<open>send\<close> with the socket it was called on.
\<close>

record relay =
  connections :: "string \<rightharpoonup> conn"
  activeCalls :: "(string \<times> call) list"
  userId :: "conn \<Rightarrow> string option"
  readyState :: "conn \<Rightarrow> ready_state"
  sent :: "(conn \<times> out_message) list"

text \<open>
  What happens to the server: a socket connects, a frame arrives on a socket, a socket
  closes. The string of a \<open>Message\<close> is the value that
  \<^verbatim>\<open>Math.random().toString(36).substring(7)\<close> has during that handler run; only the
  \<^verbatim>\<open>call-offer\<close> case evaluates it.
\<close>

datatype event =
    Connection conn
  | Message conn message string
  | Close conn

subsection \<open>Operations\<close>

definition init :: relay where
  "init = \<lparr>connections = Map.empty, activeCalls = [], userId = (\<lambda>_. None),
           readyState = (\<lambda>_. CONNECTING), sent = []\<rparr>"

definition send :: "relay \<Rightarrow> conn \<Rightarrow> out_message \<Rightarrow> relay" where
  "send s w m = s\<lparr>sent := sent s @ [(w, m)]\<rparr>"

text \<open>
  \<^verbatim>\<open>const ws = connections.get(id); if (ws && ws.readyState === WebSocket.OPEN)\<close>:
  the socket a notification for user \<open>id\<close> goes to, if any. Registered keys are
  strings, so looking up \<^verbatim>\<open>null\<close> finds nothing.
\<close>

definition open_ws :: "relay \<Rightarrow> string option \<Rightarrow> conn option" where
  "open_ws s uid =
     (case uid of
        None \<Rightarrow> None
      | Some u \<Rightarrow>
          (case connections s u of
             None \<Rightarrow> None
           | Some w \<Rightarrow> if readyState s w = OPEN then Some w else None))"

text \<open>\<^verbatim>\<open>call.callerId === userId ? call.receiverId : call.callerId\<close>\<close>

definition other_user :: "call \<Rightarrow> string option \<Rightarrow> string option" where
  "other_user c uid = (if callerId c = uid then Some (receiverId c) else callerId c)"

definition send_if_open :: "relay \<Rightarrow> string option \<Rightarrow> out_message \<Rightarrow> relay" where
  "send_if_open s uid m = (case open_ws s uid of None \<Rightarrow> s | Some w \<Rightarrow> send s w m)"

text \<open>The body of \<^verbatim>\<open>ws.on('message')\<close> for the socket \<open>c\<close>.\<close>

fun on_message :: "conn \<Rightarrow> string \<Rightarrow> message \<Rightarrow> relay \<Rightarrow> relay" where
  "on_message c rnd (Register u) s =
     s\<lparr>connections := (connections s)(u \<mapsto> c), userId := (userId s)(c := Some u)\<rparr>"
| "on_message c rnd (CallOffer rcv offer ct callerName) s =
     (let s1 = s\<lparr>activeCalls :=
                   AList.update rnd
                     \<lparr>callId = rnd, callerId = userId s c, receiverId = rcv,
                      type' = ct, status = Ringing\<rparr>
                     (activeCalls s)\<rparr>;
          s2 = send s1 c (CallInitiated rnd)
      in case open_ws s2 (Some rcv) of
           Some w \<Rightarrow> send s2 w (IncomingCall rnd (userId s c) callerName ct offer)
         | None \<Rightarrow> send s2 c (CallFailed ''User not available''))"
| "on_message c rnd (CallAnswer k answer) s =
     (case map_of (activeCalls s) k of
        None \<Rightarrow> s
      | Some cl \<Rightarrow>
          (let s1 = s\<lparr>activeCalls :=
                        AList.update k (cl\<lparr>status := Active\<rparr>) (activeCalls s)\<rparr>
           in send_if_open s1 (callerId cl) (CallAnswered k answer)))"
| "on_message c rnd (CallReject k) s =
     (case map_of (activeCalls s) k of
        None \<Rightarrow> s
      | Some cl \<Rightarrow>
          (let s1 = s\<lparr>activeCalls :=
                        AList.update k (cl\<lparr>status := Ended\<rparr>) (activeCalls s)\<rparr>;
               s2 = send_if_open s1 (other_user cl (userId s c)) (CallRejected k)
           in s2\<lparr>activeCalls := AList.delete k (activeCalls s2)\<rparr>))"
| "on_message c rnd (CallEnd k) s =
     (case map_of (activeCalls s) k of
        None \<Rightarrow> s
      | Some cl \<Rightarrow>
          (let s1 = s\<lparr>activeCalls :=
                        AList.update k (cl\<lparr>status := Ended\<rparr>) (activeCalls s)\<rparr>;
               s2 = send_if_open s1 (other_user cl (userId s c)) (CallEnded k None)
           in s2\<lparr>activeCalls := AList.delete k (activeCalls s2)\<rparr>))"
| "on_message c rnd (IceCandidate k candidate) s =
     (case map_of (activeCalls s) k of
        None \<Rightarrow> s
      | Some cl \<Rightarrow>
          send_if_open s (other_user cl (userId s c)) (IceCandidateOut k candidate))"
| "on_message c rnd Unknown s = s"

text \<open>
  The loop of \<^verbatim>\<open>ws.on('close')\<close> over \<^verbatim>\<open>activeCalls.entries()\<close>. It deletes only
  the entry it is standing on, so it visits exactly the entries present when it starts.
\<close>

definition involves :: "string \<Rightarrow> call \<Rightarrow> bool" where
  "involves u cl \<longleftrightarrow> callerId cl = Some u \<or> receiverId cl = u"

fun end_calls :: "string \<Rightarrow> (string \<times> call) list \<Rightarrow> relay \<Rightarrow> relay" where
  "end_calls u [] s = s"
| "end_calls u ((k, cl) # es) s =
     (if involves u cl then
        (let s1 = send_if_open s (other_user cl (Some u))
                    (CallEnded k (Some ''User disconnected''))
         in end_calls u es (s1\<lparr>activeCalls := AList.delete k (activeCalls s1)\<rparr>))
      else end_calls u es s)"

text \<open>
  The body of \<^verbatim>\<open>ws.on('close')\<close>. \<^verbatim>\<open>if (userId)\<close> is false for \<^verbatim>\<open>null\<close> and for
  the empty string.
\<close>

definition on_close :: "conn \<Rightarrow> relay \<Rightarrow> relay" where
  "on_close c s =
     (case userId s c of
        None \<Rightarrow> s
      | Some u \<Rightarrow>
          if u = [] then s
          else (let s1 = s\<lparr>connections := (connections s)(u := None)\<rparr>
                in end_calls u (activeCalls s1) s1))"

text \<open>
  One event. A new socket starts open with \<^verbatim>\<open>userId = null\<close>; the close handler
  runs when the socket has reached the state \<open>CLOSED\<close>.
\<close>

fun step :: "event \<Rightarrow> relay \<Rightarrow> relay" where
  "step (Connection c) s =
     s\<lparr>userId := (userId s)(c := None), readyState := (readyState s)(c := OPEN)\<rparr>"
| "step (Message c m rnd) s = on_message c rnd m s"
| "step (Close c) s = on_close c (s\<lparr>readyState := (readyState s)(c := CLOSED)\<rparr>)"

definition run :: "event list \<Rightarrow> relay \<Rightarrow> relay" where
  "run evs s = foldl (\<lambda>t e. step e t) s evs"

subsection \<open>Observations\<close>

text \<open>Keys of a JavaScript map are distinct.\<close>

definition distinct_keys :: "relay \<Rightarrow> bool" where
  "distinct_keys s \<longleftrightarrow> distinct (map fst (activeCalls s))"

text \<open>The calls of \<^verbatim>\<open>send\<close> made between two states.\<close>

definition new_sends :: "relay \<Rightarrow> relay \<Rightarrow> (conn \<times> out_message) list" where
  "new_sends s s' = drop (length (sent s)) (sent s')"

text \<open>The call id an outgoing message carries; \<^verbatim>\<open>call-failed\<close> carries none.\<close>

fun out_callId :: "out_message \<Rightarrow> string option" where
  "out_callId (CallInitiated k) = Some k"
| "out_callId (IncomingCall k _ _ _ _) = Some k"
| "out_callId (CallFailed _) = None"
| "out_callId (CallAnswered k _) = Some k"
| "out_callId (CallRejected k) = Some k"
| "out_callId (CallEnded k _) = Some k"
| "out_callId (IceCandidateOut k _) = Some k"

definition about :: "string \<Rightarrow> (conn \<times> out_message) list \<Rightarrow> (conn \<times> out_message) list" where
  "about k ms = filter (\<lambda>wm. out_callId (snd wm) = Some k) ms"

text \<open>No stored session is in the terminal state.\<close>

definition no_ended :: "relay \<Rightarrow> bool" where
  "no_ended s \<longleftrightarrow> list_all (\<lambda>e. status (snd e) = Ringing \<or> status (snd e) = Active) (activeCalls s)"

text \<open>
  What the close handler of user \<open>u\<close> sends for one entry of \<^verbatim>\<open>activeCalls\<close>,
  the registry and the socket states being those of \<open>s\<close>.
\<close>

definition close_notice :: "relay \<Rightarrow> string \<Rightarrow> string \<times> call \<Rightarrow> (conn \<times> out_message) list" where
  "close_notice s u e =
     (if involves u (snd e) then
        (case open_ws s (other_user (snd e) (Some u)) of
           None \<Rightarrow> []
         | Some w \<Rightarrow> [(w, CallEnded (fst e) (Some ''User disconnected''))])
      else [])"

text \<open>
  Every stored session has a caller different from its receiver; and the events that
  offer a call to the sender's own user id.
\<close>

definition callers_differ :: "relay \<Rightarrow> bool" where
  "callers_differ s \<longleftrightarrow>
     list_all (\<lambda>e. callerId (snd e) \<noteq> Some (receiverId (snd e))) (activeCalls s)"

fun self_offer :: "event \<Rightarrow> relay \<Rightarrow> bool" where
  "self_offer (Message c (CallOffer rcv offer ct callerName) rnd) s = (userId s c = Some rcv)"
| "self_offer e s = False"

text \<open>
  Ending a call. \<open>termination_event k e\<close>: the event is a \<^verbatim>\<open>call-end\<close> or
  \<^verbatim>\<open>call-reject\<close> for call id \<open>k\<close>, or a close of some socket.
  \<open>terminates k e s\<close>: in state \<open>s\<close> the event ends call \<open>k\<close>, as a hang-up or
  reject naming it, or as the close of a socket whose non-empty user id is the caller
  or the receiver of the stored session. \<open>ender e s\<close> is the user id of the socket
  the event happens on, and \<open>notice k e\<close> the message about \<open>k\<close> that the handler
  of \<open>e\<close> sends. \<open>is_error\<close> holds of \<^verbatim>\<open>call-failed\<close>, the only message that
  reports a failure to a client.
\<close>

fun termination_event :: "string \<Rightarrow> event \<Rightarrow> bool" where
  "termination_event k (Message c (CallEnd k') rnd) = (k' = k)"
| "termination_event k (Message c (CallReject k') rnd) = (k' = k)"
| "termination_event k (Close c) = True"
| "termination_event k e = False"

fun terminates :: "string \<Rightarrow> event \<Rightarrow> relay \<Rightarrow> bool" where
  "terminates k (Message c (CallEnd k') rnd) s = (k' = k)"
| "terminates k (Message c (CallReject k') rnd) s = (k' = k)"
| "terminates k (Close c) s =
     (case userId s c of
        None \<Rightarrow> False
      | Some u \<Rightarrow>
          u \<noteq> [] \<and>
          (case map_of (activeCalls s) k of
             None \<Rightarrow> False
           | Some cl \<Rightarrow> callerId cl = Some u \<or> receiverId cl = u))"
| "terminates k e s = False"

fun ender :: "event \<Rightarrow> relay \<Rightarrow> string option" where
  "ender (Connection c) s = userId s c"
| "ender (Message c m rnd) s = userId s c"
| "ender (Close c) s = userId s c"

fun notice :: "string \<Rightarrow> event \<Rightarrow> out_message" where
  "notice k (Message c (CallReject k') rnd) = CallRejected k"
| "notice k (Close c) = CallEnded k (Some ''User disconnected'')"
| "notice k e = CallEnded k None"

fun is_error :: "out_message \<Rightarrow> bool" where
  "is_error (CallFailed reason) = True"
| "is_error m = False"

text \<open>
  The lifecycle of a call id. A session is removed from the store in the same handler
  run that ends it, so the observed state of a call id without a stored session is
  \<open>Ended\<close>. \<open>states k evs s\<close> lists the observed states of \<open>k\<close> before and after
  each event of \<open>evs\<close>; \<open>lifecycle_from x\<close> is the part of
  \<open>Ringing\<close>, \<open>Active\<close>, \<open>Ended\<close> from \<open>x\<close> on.
\<close>

definition call_state :: "relay \<Rightarrow> string \<Rightarrow> call_status" where
  "call_state s k = (case map_of (activeCalls s) k of None \<Rightarrow> Ended | Some cl \<Rightarrow> status cl)"

fun rank :: "call_status \<Rightarrow> nat" where
  "rank Ringing = 0"
| "rank Active = 1"
| "rank Ended = 2"

fun lifecycle_from :: "call_status \<Rightarrow> call_status list" where
  "lifecycle_from Ringing = [Ringing, Active, Ended]"
| "lifecycle_from Active = [Active, Ended]"
| "lifecycle_from Ended = [Ended]"

fun states :: "string \<Rightarrow> event list \<Rightarrow> relay \<Rightarrow> call_status list" where
  "states k [] s = [call_state s k]"
| "states k (e # evs) s = call_state s k # states k evs (step e s)"

text \<open>
  The events whose handler draws \<open>k\<close> as the id of a new call, and the messages that
  carry the call id \<open>k\<close>.
\<close>

fun draws :: "string \<Rightarrow> event \<Rightarrow> bool" where
  "draws k (Message c (CallOffer rcv offer ct callerName) rnd) = (rnd = k)"
| "draws k e = False"

fun references :: "string \<Rightarrow> message \<Rightarrow> bool" where
  "references k (CallAnswer k' answer) = (k' = k)"
| "references k (CallReject k') = (k' = k)"
| "references k (CallEnd k') = (k' = k)"
| "references k (IceCandidate k' candidate) = (k' = k)"
| "references k m = False"

subsection \<open>Scenarios\<close>

text \<open>
  Concrete runs from the initial state, used to evaluate the handlers. Call ids have
  the shape \<^verbatim>\<open>Math.random().toString(36).substring(7)\<close> produces: a few characters
  out of \<^verbatim>\<open>0-9a-z\<close>.
\<close>

definition s_alice :: relay where
  "s_alice = run [Connection 1, Message 1 (Register ''alice'') ''0''] init"

definition s_reregistered :: relay where
  "s_reregistered =
     run [Connection 1, Message 1 (Register ''alice'') ''0'',
          Connection 2, Message 2 (Register ''alice'') ''0''] init"

definition s_call_AB :: relay where
  "s_call_AB =
     run [Connection 1, Message 1 (Register ''alice'') ''0'',
          Connection 2, Message 2 (Register ''bob'') ''0'',
          Message 1 (CallOffer ''bob'' ''sdp-offer'' Video ''Alice'') ''x7k2q''] init"

definition s_carol :: relay where
  "s_carol = run [Connection 3, Message 3 (Register ''carol'') ''0''] s_call_AB"

definition s_active_AB :: relay where
  "s_active_AB = step (Message 2 (CallAnswer ''x7k2q'' ''sdp-answer'') ''0'') s_call_AB"

definition s_ended_AB :: relay where
  "s_ended_AB = step (Message 1 (CallEnd ''x7k2q'') ''0'') s_active_AB"

definition s_call_ghost :: relay where
  "s_call_ghost =
     step (Message 1 (CallOffer ''ghost'' ''sdp-offer'' Voice ''Alice'') ''x7k2q'') s_alice"

definition s_empty_id :: relay where
  "s_empty_id =
     run [Connection 1, Message 1 (Register []) ''0'',
          Connection 2, Message 2 (Register ''bob'') ''0'',
          Message 1 (CallOffer ''bob'' ''sdp-offer'' Voice ''Nobody'') ''x7k2q''] init"

section \<open>Basic facts\<close>

lemma send_fields [simp]:
  "connections (send s w m) = connections s"
  "activeCalls (send s w m) = activeCalls s"
  "userId (send s w m) = userId s"
  "readyState (send s w m) = readyState s"
  "sent (send s w m) = sent s @ [(w, m)]"
  by (simp_all add: send_def)

lemma send_if_open_fields [simp]:
  "connections (send_if_open s uid m) = connections s"
  "activeCalls (send_if_open s uid m) = activeCalls s"
  "userId (send_if_open s uid m) = userId s"
  "readyState (send_if_open s uid m) = readyState s"
  by (simp_all add: send_if_open_def split: option.splits)

lemma sent_send_if_open:
  "sent (send_if_open s uid m) =
     sent s @ (case open_ws s uid of None \<Rightarrow> [] | Some w \<Rightarrow> [(w, m)])"
  by (simp add: send_if_open_def split: option.splits)

lemma open_ws_cong:
  "connections s = connections t \<Longrightarrow> readyState s = readyState t \<Longrightarrow> open_ws s = open_ws t"
  by (rule ext) (simp add: open_ws_def split: option.splits)

lemma open_ws_send [simp]: "open_ws (send s w m) = open_ws s"
  by (rule open_ws_cong) simp_all

lemma open_ws_send_if_open [simp]: "open_ws (send_if_open s uid m) = open_ws s"
  by (rule open_ws_cong) simp_all

lemma open_ws_activeCalls_update [simp]: "open_ws (s\<lparr>activeCalls := a\<rparr>) = open_ws s"
  by (rule open_ws_cong) simp_all

lemma open_ws_sent_update [simp]: "open_ws (s\<lparr>sent := a\<rparr>) = open_ws s"
  by (rule open_ws_cong) simp_all

lemma new_sends_append [simp]: "sent s' = sent s @ xs \<Longrightarrow> new_sends s s' = xs"
  by (simp add: new_sends_def)

lemma new_sends_same [simp]: "new_sends s s = []"
  by (simp add: new_sends_def)

lemma end_calls_frame [simp]:
  "connections (end_calls u es s) = connections s"
  "userId (end_calls u es s) = userId s"
  "readyState (end_calls u es s) = readyState s"
  by (induction u es s rule: end_calls.induct; simp add: Let_def)+

lemma open_ws_end_calls [simp]: "open_ws (end_calls u es s) = open_ws s"
  by (rule open_ws_cong) simp_all

lemma close_notice_cong:
  "open_ws s = open_ws t \<Longrightarrow> close_notice s = close_notice t"
  by (intro ext) (simp add: close_notice_def)

lemma close_notice_upd [simp]:
  "close_notice (s\<lparr>activeCalls := a\<rparr>) = close_notice s"
  "close_notice (send_if_open s uid m) = close_notice s"
  by (rule close_notice_cong, simp)+

lemma sent_end_calls:
  "sent (end_calls u es s) = sent s @ concat (map (close_notice s u) es)"
proof (induction u es s rule: end_calls.induct)
  case (1 u s)
  then show ?case by simp
next
  case (2 u k cl es s)
  show ?case
  proof (cases "involves u cl")
    case True
    let ?s1 = "send_if_open s (other_user cl (Some u)) (CallEnded k (Some ''User disconnected''))"
    let ?s2 = "?s1\<lparr>activeCalls := AList.delete k (activeCalls ?s1)\<rparr>"
    have hd: "close_notice s u (k, cl) =
        (case open_ws s (other_user cl (Some u)) of None \<Rightarrow> []
         | Some w \<Rightarrow> [(w, CallEnded k (Some ''User disconnected''))])"
      using True by (simp add: close_notice_def split: option.splits)
    from True 2(1)[OF True refl] show ?thesis
      by (simp add: Let_def sent_send_if_open hd)
  next
    case False
    with 2(2)[OF False] show ?thesis
      by (simp add: close_notice_def)
  qed
qed

lemma map_of_end_calls:
  "map_of (activeCalls (end_calls u es s)) k =
     (if k \<in> fst ` {e \<in> set es. involves u (snd e)} then None
      else map_of (activeCalls s) k)"
proof (induction u es s rule: end_calls.induct)
  case (1 u s)
  then show ?case by simp
next
  case (2 u k' cl es s)
  show ?case
  proof (cases "involves u cl")
    case True
    have K: "fst ` {e \<in> set ((k', cl) # es). involves u (snd e)} =
             insert k' (fst ` {e \<in> set es. involves u (snd e)})"
      using True by force
    from True 2(1)[OF True refl] show ?thesis
      unfolding K by (simp add: Let_def AList.delete_conv)
  next
    case False
    have K: "{e \<in> set ((k', cl) # es). involves u (snd e)} = {e \<in> set es. involves u (snd e)}"
      using False by auto
    from False 2(2)[OF False] show ?thesis
      unfolding K by simp
  qed
qed

lemma activeCalls_end_calls:
  "activeCalls (end_calls u es s) =
     filter (\<lambda>e. fst e \<notin> fst ` {e \<in> set es. involves u (snd e)}) (activeCalls s)"
proof (induction u es s rule: end_calls.induct)
  case (1 u s)
  then show ?case by simp
next
  case (2 u k' cl es s)
  show ?case
  proof (cases "involves u cl")
    case True
    have K: "fst ` {e \<in> set ((k', cl) # es). involves u (snd e)} =
             insert k' (fst ` {e \<in> set es. involves u (snd e)})"
      using True by force
    have "filter (\<lambda>e. fst e \<notin> fst ` {e \<in> set es. involves u (snd e)}) (AList.delete k' (activeCalls s))
        = filter (\<lambda>e. fst e \<notin> insert k' (fst ` {e \<in> set es. involves u (snd e)})) (activeCalls s)"
      by (auto simp add: AList.delete_eq intro!: filter_cong)
    with True 2(1)[OF True refl] show ?thesis
      unfolding K by (simp add: Let_def)
  next
    case False
    have "{e \<in> set ((k', cl) # es). involves u (snd e)} = {e \<in> set es. involves u (snd e)}"
      using False by auto
    with False 2(2)[OF False] show ?thesis
      by simp
  qed
qed

lemma filter_involved_distinct:
  assumes "distinct (map fst al)"
  shows "filter (\<lambda>e. fst e \<notin> fst ` {e \<in> set al. P (snd e)}) al = filter (\<lambda>e. \<not> P (snd e)) al"
proof (rule filter_cong[OF refl])
  fix e assume e: "e \<in> set al"
  show "(fst e \<notin> fst ` {e \<in> set al. P (snd e)}) = (\<not> P (snd e))"
  proof
    assume "fst e \<notin> fst ` {e \<in> set al. P (snd e)}"
    with e show "\<not> P (snd e)" by auto
  next
    assume np: "\<not> P (snd e)"
    show "fst e \<notin> fst ` {e \<in> set al. P (snd e)}"
    proof
      assume "fst e \<in> fst ` {e \<in> set al. P (snd e)}"
      then obtain e' where e': "e' \<in> set al" "P (snd e')" "fst e' = fst e" by auto
      from assms e e' have "e' = e"
        by (metis eq_key_imp_eq_value prod.collapse)
      with np e' show False by simp
    qed
  qed
qed

lemma about_append: "about k (xs @ ys) = about k xs @ about k ys"
  by (simp add: about_def)

lemma about_simps [simp]:
  "about k [] = []"
  "about k ((w, m) # ms) = (if out_callId m = Some k then (w, m) # about k ms else about k ms)"
  by (simp_all add: about_def)

lemma close_notice_cases:
  "close_notice s u e = [] \<or>
   (\<exists>w. close_notice s u e = [(w, CallEnded (fst e) (Some ''User disconnected''))])"
  by (cases "involves u (snd e)"; cases "open_ws s (other_user (snd e) (Some u))")
     (simp_all add: close_notice_def)

lemma about_close_notice_other: "k \<noteq> fst e \<Longrightarrow> about k (close_notice s u e) = []"
  using close_notice_cases[of s u e] by auto

lemma about_close_notice_own: "about k (close_notice s u (k, cl)) = close_notice s u (k, cl)"
  using close_notice_cases[of s u "(k, cl)"] by auto

lemma about_close_notices_absent:
  "k \<notin> fst ` set es \<Longrightarrow> about k (concat (map (close_notice s u) es)) = []"
proof (induction es)
  case Nil
  show ?case by simp
next
  case (Cons e es)
  then show ?case by (simp add: about_append about_close_notice_other)
qed

lemma about_close_notices:
  assumes "distinct (map fst es)" "(k, cl) \<in> set es"
  shows "about k (concat (map (close_notice s u) es)) = close_notice s u (k, cl)"
  using assms
proof (induction es)
  case Nil
  then show ?case by simp
next
  case (Cons e es)
  show ?case
  proof (cases "e = (k, cl)")
    case True
    with Cons.prems have "k \<notin> fst ` set es" by auto
    then have "about k (concat (map (close_notice s u) es)) = []"
      by (rule about_close_notices_absent)
    with True show ?thesis by (simp add: about_append about_close_notice_own)
  next
    case False
    with Cons.prems have in_es: "(k, cl) \<in> set es" and d: "distinct (map fst es)" by auto
    with Cons.prems have "k \<noteq> fst e" by (auto simp: image_iff)
    with Cons.IH[OF d in_es] show ?thesis
      by (simp add: about_append about_close_notice_other)
  qed
qed

lemma run_simps [simp]:
  "run [] s = s"
  "run (e # evs) s = run evs (step e s)"
  "run (evs @ evs') s = run evs' (run evs s)"
  by (simp_all add: run_def)

lemma list_all_update:
  "list_all P al \<Longrightarrow> P (k, v) \<Longrightarrow> list_all P (AList.update k v al)"
  by (induction al) auto

lemma list_all_delete: "list_all P al \<Longrightarrow> list_all P (AList.delete k al)"
  by (induction al) auto

lemma activeCalls_on_close:
  "activeCalls (on_close c s) =
     (case userId s c of
        None \<Rightarrow> activeCalls s
      | Some u \<Rightarrow>
          if u = [] then activeCalls s
          else filter (\<lambda>e. fst e \<notin> fst ` {e \<in> set (activeCalls s). involves u (snd e)})
                 (activeCalls s))"
  by (simp add: on_close_def Let_def activeCalls_end_calls split: option.splits)

lemma no_ended_on_message: "no_ended s \<Longrightarrow> no_ended (on_message c rnd m s)"
  by (cases m)
     (auto simp add: no_ended_def Let_def list_all_update list_all_delete
        AList.delete_update_same send_if_open_def split: option.splits)

lemma no_ended_on_close: "no_ended s \<Longrightarrow> no_ended (on_close c s)"
  by (auto simp add: no_ended_def activeCalls_on_close list_all_iff split: option.splits)

lemma no_ended_step: "no_ended s \<Longrightarrow> no_ended (step e s)"
proof (cases e)
  case (Connection c)
  assume "no_ended s"
  with Connection show ?thesis by (simp add: no_ended_def)
next
  case (Message c m rnd)
  assume "no_ended s"
  with Message show ?thesis by (simp add: no_ended_on_message)
next
  case (Close c)
  assume "no_ended s"
  then have "no_ended (s\<lparr>readyState := (readyState s)(c := CLOSED)\<rparr>)"
    by (simp add: no_ended_def)
  with Close show ?thesis by (simp add: no_ended_on_close)
qed

lemma no_ended_run: "no_ended s \<Longrightarrow> no_ended (run evs s)"
  by (induction evs arbitrary: s) (simp_all add: no_ended_step)

lemma distinct_keys_on_message: "distinct_keys s \<Longrightarrow> distinct_keys (on_message c rnd m s)"
  by (cases m)
     (auto simp add: distinct_keys_def Let_def AList.distinct_update AList.distinct_delete
        send_if_open_def split: option.splits)

lemma distinct_keys_on_close: "distinct_keys s \<Longrightarrow> distinct_keys (on_close c s)"
  by (auto simp add: distinct_keys_def activeCalls_on_close distinct_map_filter split: option.splits)

lemma distinct_keys_step: "distinct_keys s \<Longrightarrow> distinct_keys (step e s)"
proof (cases e)
  case (Connection c)
  assume "distinct_keys s"
  with Connection show ?thesis by (simp add: distinct_keys_def)
next
  case (Message c m rnd)
  assume "distinct_keys s"
  with Message show ?thesis by (simp add: distinct_keys_on_message)
next
  case (Close c)
  assume "distinct_keys s"
  then have "distinct_keys (s\<lparr>readyState := (readyState s)(c := CLOSED)\<rparr>)"
    by (simp add: distinct_keys_def)
  with Close show ?thesis by (simp add: distinct_keys_on_close)
qed

lemma distinct_keys_run: "distinct_keys s \<Longrightarrow> distinct_keys (run evs s)"
  by (induction evs arbitrary: s) (simp_all add: distinct_keys_step)

lemma update_fresh: "k \<notin> fst ` set al \<Longrightarrow> AList.update k v al = al @ [(k, v)]"
  by (induction al) auto

lemma new_sends_send [simp]: "new_sends s (send s w m) = [(w, m)]"
  by (simp add: new_sends_def)


lemma new_sends_activeCalls_update [simp]:
  "new_sends s (t\<lparr>activeCalls := a\<rparr>) = new_sends s t"
  "new_sends (s\<lparr>activeCalls := a\<rparr>) t = new_sends s t"
  by (simp_all add: new_sends_def)

lemma update_keys_present:
  "k \<in> fst ` set al \<Longrightarrow> map fst (AList.update k v al) = map fst al"
  by (simp add: AList.update_keys)

lemma list_all_map_of: "list_all P al \<Longrightarrow> map_of al k = Some v \<Longrightarrow> P (k, v)"
  by (auto simp add: list_all_iff dest: map_of_SomeD)

lemma callers_differ_on_message:
  assumes "callers_differ s" "\<not> self_offer (Message c m rnd) s"
  shows "callers_differ (on_message c rnd m s)"
proof (cases m)
  case (CallOffer rcv offer ct callerName)
  with assms show ?thesis
    by (cases "open_ws s (Some rcv)")
       (simp_all add: callers_differ_def Let_def list_all_update)
next
  case (CallAnswer k answer)
  show ?thesis
  proof (cases "map_of (activeCalls s) k")
    case None
    with assms CallAnswer show ?thesis by simp
  next
    case (Some cl)
    from assms(1) Some have "callerId cl \<noteq> Some (receiverId cl)"
      unfolding callers_differ_def by (auto dest: list_all_map_of)
    with assms(1) Some CallAnswer show ?thesis
      by (cases "open_ws s (callerId cl)")
         (simp_all add: callers_differ_def Let_def list_all_update send_if_open_def)
  qed
next
  case (CallReject k)
  with assms show ?thesis
    by (auto simp add: callers_differ_def Let_def list_all_delete AList.delete_update_same
          send_if_open_def split: option.splits)
next
  case (CallEnd k)
  with assms show ?thesis
    by (auto simp add: callers_differ_def Let_def list_all_delete AList.delete_update_same
          send_if_open_def split: option.splits)
next
  case (IceCandidate k candidate)
  with assms show ?thesis
    by (auto simp add: callers_differ_def send_if_open_def split: option.splits)
qed (use assms in \<open>simp_all add: callers_differ_def\<close>)

lemma callers_differ_on_close: "callers_differ s \<Longrightarrow> callers_differ (on_close c s)"
  by (auto simp add: callers_differ_def activeCalls_on_close list_all_iff split: option.splits)

subsection \<open>The close handler as a whole\<close>

lemma sent_close:
  assumes "userId s c = Some u" "u \<noteq> []"
  shows "sent (step (Close c) s) =
           sent s @ concat (map (close_notice (step (Close c) s) u) (activeCalls s))"
proof -
  let ?s1 = "s\<lparr>readyState := (readyState s)(c := CLOSED), connections := (connections s)(u := None)\<rparr>"
  have st: "step (Close c) s = end_calls u (activeCalls s) ?s1"
    using assms by (simp add: on_close_def Let_def)
  have "close_notice (end_calls u (activeCalls s) ?s1) = close_notice ?s1"
    by (rule close_notice_cong) simp
  then show ?thesis
    unfolding st by (simp add: sent_end_calls)
qed

lemma activeCalls_close:
  assumes "userId s c = Some u" "u \<noteq> []"
  shows "activeCalls (step (Close c) s) =
     filter (\<lambda>e. fst e \<notin> fst ` {e \<in> set (activeCalls s). involves u (snd e)}) (activeCalls s)"
  using assms by (simp add: activeCalls_on_close)

lemma step_close_idle:
  "userId s c = None \<or> userId s c = Some [] \<Longrightarrow>
   step (Close c) s = s\<lparr>readyState := (readyState s)(c := CLOSED)\<rparr>"
  by (auto simp add: on_close_def)

lemma map_of_close:
  assumes "userId s c = Some u" "u \<noteq> []"
  shows "map_of (activeCalls (step (Close c) s)) k =
     (if k \<in> fst ` {e \<in> set (activeCalls s). involves u (snd e)} then None
      else map_of (activeCalls s) k)"
  using assms by (simp add: on_close_def Let_def map_of_end_calls)

lemma activeCalls_close_distinct:
  assumes "userId s c = Some u" "u \<noteq> []" "distinct_keys s"
  shows "activeCalls (step (Close c) s) = filter (\<lambda>e. \<not> involves u (snd e)) (activeCalls s)"
proof -
  from assms(3) have d: "distinct (map fst (activeCalls s))"
    by (simp add: distinct_keys_def)
  show ?thesis
    unfolding activeCalls_close[OF assms(1,2)] by (rule filter_involved_distinct[OF d])
qed

lemma about_close_sends:
  assumes "userId s c = Some u" "u \<noteq> []" "distinct_keys s"
    and "(k, cl) \<in> set (activeCalls s)" "involves u cl"
  shows "about k (new_sends s (step (Close c) s)) =
           (case open_ws (step (Close c) s) (other_user cl (Some u)) of
              None \<Rightarrow> []
            | Some w \<Rightarrow> [(w, CallEnded k (Some ''User disconnected''))])"
proof -
  from assms(3) have d: "distinct (map fst (activeCalls s))"
    by (simp add: distinct_keys_def)
  have n: "new_sends s (step (Close c) s) =
             concat (map (close_notice (step (Close c) s) u) (activeCalls s))"
    using sent_close[OF assms(1,2)] by (rule new_sends_append)
  have "about k (new_sends s (step (Close c) s)) = close_notice (step (Close c) s) u (k, cl)"
    unfolding n using assms(4) by (rule about_close_notices[OF d])
  also have "\<dots> = (case open_ws (step (Close c) s) (other_user cl (Some u)) of
               None \<Rightarrow> []
             | Some w \<Rightarrow> [(w, CallEnded k (Some ''User disconnected''))])"
    using assms(5) unfolding close_notice_def by (simp split: option.splits)
  finally show ?thesis .
qed

subsection \<open>Ending a call\<close>

lemma sent_on_message_prefix: "\<exists>xs. sent (on_message c rnd m s) = sent s @ xs"
  by (cases m) (auto simp add: Let_def sent_send_if_open split: option.splits)

lemma sent_step_prefix: "\<exists>xs. sent (step e s) = sent s @ xs"
proof (cases e)
  case (Connection c)
  then show ?thesis by simp
next
  case (Message c m rnd)
  then show ?thesis by (simp add: sent_on_message_prefix)
next
  case (Close c)
  show ?thesis
  proof (cases "userId s c = None \<or> userId s c = Some []")
    case True
    then show ?thesis unfolding Close step_close_idle[OF True] by simp
  next
    case False
    then obtain u where "userId s c = Some u" "u \<noteq> []" by auto
    from sent_close[OF this] show ?thesis unfolding Close by blast
  qed
qed

lemma new_sends_trans:
  "new_sends s (step e2 (step e1 s)) =
     new_sends s (step e1 s) @ new_sends (step e1 s) (step e2 (step e1 s))"
proof -
  obtain xs where xs: "sent (step e1 s) = sent s @ xs"
    using sent_step_prefix by blast
  obtain ys where ys: "sent (step e2 (step e1 s)) = sent (step e1 s) @ ys"
    using sent_step_prefix by blast
  show ?thesis by (simp add: new_sends_def xs ys)
qed

lemma close_notices_no_error:
  "list_all (\<lambda>wm. \<not> is_error (snd wm)) (concat (map (close_notice s u) es))"
proof (induction es)
  case Nil
  show ?case by simp
next
  case (Cons e es)
  from close_notice_cases[of s u e]
  have "list_all (\<lambda>wm. \<not> is_error (snd wm)) (close_notice s u e)"
    by auto
  with Cons show ?case by simp
qed

lemma absent_termination_dropped:
  assumes "map_of (activeCalls s) k = None" "termination_event k e"
  shows "map_of (activeCalls (step e s)) k = None \<and>
         about k (new_sends s (step e s)) = [] \<and>
         list_all (\<lambda>wm. \<not> is_error (snd wm)) (new_sends s (step e s)) \<and>
         ((\<forall>c. e \<noteq> Close c) \<longrightarrow> step e s = s)"
proof (cases e)
  case (Connection c)
  with assms show ?thesis by simp
next
  case (Message c m rnd)
  with assms show ?thesis by (cases m) simp_all
next
  case (Close c)
  show ?thesis
  proof (cases "userId s c = None \<or> userId s c = Some []")
    case True
    with assms show ?thesis unfolding Close step_close_idle[OF True]
      by (simp add: new_sends_def)
  next
    case False
    then obtain u where u: "userId s c = Some u" "u \<noteq> []" by auto
    from assms(1) have "k \<notin> fst ` set (activeCalls s)"
      by (simp add: map_of_eq_None_iff)
    then have "about k (concat (map (close_notice (step (Close c) s) u) (activeCalls s))) = []"
      by (rule about_close_notices_absent)
    moreover have "new_sends s (step (Close c) s) =
             concat (map (close_notice (step (Close c) s) u) (activeCalls s))"
      using sent_close[OF u] by (rule new_sends_append)
    moreover have "map_of (activeCalls (step (Close c) s)) k = None"
      unfolding map_of_close[OF u] using assms(1) by simp
    moreover note close_notices_no_error[of "step (Close c) s" u "activeCalls s"]
    ultimately show ?thesis unfolding Close by simp
  qed
qed

lemma terminates_removes:
  assumes "terminates k e s"
  shows "map_of (activeCalls (step e s)) k = None"
proof (cases e)
  case (Connection c)
  with assms show ?thesis by simp
next
  case (Message c m rnd)
  with assms show ?thesis
    by (cases m) (auto simp add: Let_def AList.delete_conv' split: option.splits)
next
  case (Close c)
  with assms obtain u cl where u: "userId s c = Some u" "u \<noteq> []"
    and cl: "map_of (activeCalls s) k = Some cl" "callerId cl = Some u \<or> receiverId cl = u"
    by (auto split: option.splits)
  from cl(2) have i: "involves u cl" by (simp add: involves_def)
  from cl have "(k, cl) \<in> set (activeCalls s)" by (auto dest: map_of_SomeD)
  with i have "k \<in> fst ` {e \<in> set (activeCalls s). involves u (snd e)}"
    by force
  then show ?thesis unfolding Close map_of_close[OF u] by simp
qed

lemma first_notification:
  assumes "distinct_keys s" "terminates k e s"
  shows "about k (new_sends s (step e s)) =
           (case map_of (activeCalls s) k of
              None \<Rightarrow> []
            | Some cl \<Rightarrow>
                (case open_ws (step e s) (other_user cl (ender e s)) of
                   None \<Rightarrow> []
                 | Some w \<Rightarrow> [(w, notice k e)]))"
proof (cases e)
  case (Connection c)
  with assms show ?thesis by simp
next
  case (Message c m rnd)
  show ?thesis
  proof (cases "map_of (activeCalls s) k")
    case None
    with assms Message show ?thesis by (cases m) simp_all
  next
    case (Some cl)
    have o: "open_ws (step e s) = open_ws s"
      using assms(2) Message Some by (cases m) (simp_all add: Let_def)
    from assms(2) Message Some show ?thesis unfolding o
      by (cases m; cases "open_ws s (other_user cl (userId s c))")
         (simp_all add: Let_def new_sends_def sent_send_if_open)
  qed
next
  case (Close c)
  with assms obtain u cl where u: "userId s c = Some u" "u \<noteq> []"
    and cl: "map_of (activeCalls s) k = Some cl" "callerId cl = Some u \<or> receiverId cl = u"
    by (auto split: option.splits)
  from cl(2) have i: "involves u cl" by (simp add: involves_def)
  from cl have m: "(k, cl) \<in> set (activeCalls s)" by (auto dest: map_of_SomeD)
  have "about k (new_sends s (step (Close c) s)) =
              (case open_ws (step (Close c) s) (other_user cl (Some u)) of
                 None \<Rightarrow> []
               | Some w \<Rightarrow> [(w, CallEnded k (Some ''User disconnected''))])"
    using u assms(1) m i by (rule about_close_sends)
  with cl(1) u(1) show ?thesis unfolding Close
    by (simp del: step.simps split: option.splits)
qed

subsection \<open>The observed state of a call id\<close>

lemma call_state_absent: "no_ended s \<Longrightarrow> call_state s k = Ended \<longleftrightarrow> map_of (activeCalls s) k = None"
  by (auto simp add: call_state_def no_ended_def split: option.splits dest!: list_all_map_of)

lemma call_state_on_message:
  assumes "no_ended s" "\<not> draws k (Message c m rnd)"
  shows "rank (call_state s k) \<le> rank (call_state (on_message c rnd m s) k)"
proof (cases m)
  case (CallOffer rcv offer ct callerName)
  with assms show ?thesis
    by (cases "open_ws s (Some rcv)") (simp_all add: call_state_def Let_def AList.update_conv')
next
  case (CallAnswer k' answer)
  show ?thesis
  proof (cases "map_of (activeCalls s) k'")
    case None
    with CallAnswer show ?thesis by simp
  next
    case (Some cl)
    from assms(1) Some have "status cl = Ringing \<or> status cl = Active"
      unfolding no_ended_def by (auto dest: list_all_map_of)
    with Some CallAnswer show ?thesis
      by (auto simp add: call_state_def Let_def AList.update_conv')
  qed
next
  case (CallReject k')
  then show ?thesis
    by (cases "call_state s k")
       (auto simp add: call_state_def Let_def AList.delete_conv' AList.delete_update_same
          split: option.splits)
next
  case (CallEnd k')
  then show ?thesis
    by (cases "call_state s k")
       (auto simp add: call_state_def Let_def AList.delete_conv' AList.delete_update_same
          split: option.splits)
next
  case (IceCandidate k' candidate)
  then show ?thesis by (auto simp add: call_state_def split: option.splits)
qed (simp_all add: call_state_def)

lemma call_state_step:
  assumes "no_ended s" "\<not> draws k e"
  shows "rank (call_state s k) \<le> rank (call_state (step e s) k)"
proof (cases e)
  case (Connection c)
  then show ?thesis by (simp add: call_state_def)
next
  case (Message c m rnd)
  with assms show ?thesis by (simp add: call_state_on_message)
next
  case (Close c)
  show ?thesis
  proof (cases "userId s c = None \<or> userId s c = Some []")
    case True
    show ?thesis unfolding Close step_close_idle[OF True] by (simp add: call_state_def)
  next
    case False
    then obtain u where u: "userId s c = Some u" "u \<noteq> []" by auto
    show ?thesis unfolding Close call_state_def map_of_close[OF u]
      by (cases "call_state s k") (auto simp add: call_state_def split: option.splits)
  qed
qed

lemma states_hd: "\<exists>xs. states k evs s = call_state s k # xs"
  by (cases evs) simp_all

lemma states_sorted:
  "no_ended s \<Longrightarrow> list_all (\<lambda>e. \<not> draws k e) evs \<Longrightarrow> sorted (map rank (states k evs s))"
proof (induction evs arbitrary: s)
  case Nil
  then show ?case by simp
next
  case (Cons e evs)
  obtain xs where xs: "states k evs (step e s) = call_state (step e s) k # xs"
    using states_hd by blast
  from Cons.prems have "rank (call_state s k) \<le> rank (call_state (step e s) k)"
    by (simp add: call_state_step)
  moreover from Cons have "sorted (map rank (states k evs (step e s)))"
    by (simp add: no_ended_step)
  ultimately show ?case by (simp add: xs del: sorted_wrt.simps add: sorted2)
qed

lemma sorted_lifecycle:
  "sorted (map rank (x # xs)) \<Longrightarrow> subseq (remdups_adj (x # xs)) (lifecycle_from x)"
proof (induction xs arbitrary: x)
  case Nil
  then show ?case by (cases x) simp_all
next
  case (Cons y ys)
  from Cons.prems have le: "rank x \<le> rank y" and s: "sorted (map rank (y # ys))"
    by simp_all
  from Cons.IH[OF s] have ih: "subseq (remdups_adj (y # ys)) (lifecycle_from y)" .
  show ?case
  proof (cases "x = y")
    case True
    with ih show ?thesis by simp
  next
    case False
    with le have "subseq (x # lifecycle_from y) (lifecycle_from x)"
      by (cases x; cases y) simp_all
    moreover from ih have "subseq (x # remdups_adj (y # ys)) (x # lifecycle_from y)"
      by simp
    ultimately have "subseq (x # remdups_adj (y # ys)) (lifecycle_from x)"
      by (rule subseq_order.trans[rotated])
    with False show ?thesis by simp
  qed
qed

lemma lifecycle_from_subseq: "subseq (lifecycle_from x) [Ringing, Active, Ended]"
  by (cases x) simp_all

lemma states_ended:
  "no_ended s \<Longrightarrow> list_all (\<lambda>e. \<not> draws k e) evs \<Longrightarrow> call_state s k = Ended \<Longrightarrow>
   list_all (\<lambda>st. st = Ended) (states k evs s)"
proof (induction evs arbitrary: s)
  case Nil
  then show ?case by simp
next
  case (Cons e evs)
  from Cons.prems(1,2) have "rank (call_state s k) \<le> rank (call_state (step e s) k)"
    by (simp add: call_state_step)
  with Cons.prems(3) have "call_state (step e s) k = Ended"
    by (cases "call_state (step e s) k") simp_all
  with Cons show ?case by (simp add: no_ended_step)
qed

subsection \<open>The scenarios, evaluated\<close>

lemma s_call_AB_eq:
  "s_call_AB =
     \<lparr>connections = [''alice'' \<mapsto> 1, ''bob'' \<mapsto> 2],
      activeCalls = [(''x7k2q'', \<lparr>callId = ''x7k2q'', callerId = Some ''alice'',
                       receiverId = ''bob'', type' = Video, status = Ringing\<rparr>)],
      userId = (\<lambda>_. None)(1 := Some ''alice'', 2 := Some ''bob''),
      readyState = (\<lambda>_. CONNECTING)(1 := OPEN, 2 := OPEN),
      sent = [(1, CallInitiated ''x7k2q''),
              (2, IncomingCall ''x7k2q'' (Some ''alice'') ''Alice'' Video ''sdp-offer'')]\<rparr>"
  by (simp add: s_call_AB_def init_def Let_def open_ws_def)

lemma s_alice_eq:
  "s_alice =
     \<lparr>connections = [''alice'' \<mapsto> 1], activeCalls = [],
      userId = (\<lambda>_. None)(1 := Some ''alice''),
      readyState = (\<lambda>_. CONNECTING)(1 := OPEN), sent = []\<rparr>"
  by (simp add: s_alice_def init_def)

lemma s_reregistered_eq:
  "s_reregistered =
     \<lparr>connections = [''alice'' \<mapsto> 2], activeCalls = [],
      userId = (\<lambda>_. None)(1 := Some ''alice'', 2 := Some ''alice''),
      readyState = (\<lambda>_. CONNECTING)(1 := OPEN, 2 := OPEN), sent = []\<rparr>"
  by (simp add: s_reregistered_def init_def)

lemma s_carol_eq:
  "s_carol =
     \<lparr>connections = [''alice'' \<mapsto> 1, ''bob'' \<mapsto> 2, ''carol'' \<mapsto> 3],
      activeCalls = [(''x7k2q'', \<lparr>callId = ''x7k2q'', callerId = Some ''alice'',
                       receiverId = ''bob'', type' = Video, status = Ringing\<rparr>)],
      userId = (\<lambda>_. None)(1 := Some ''alice'', 2 := Some ''bob'', 3 := Some ''carol''),
      readyState = (\<lambda>_. CONNECTING)(1 := OPEN, 2 := OPEN, 3 := OPEN),
      sent = [(1, CallInitiated ''x7k2q''),
              (2, IncomingCall ''x7k2q'' (Some ''alice'') ''Alice'' Video ''sdp-offer'')]\<rparr>"
  by (simp add: s_carol_def s_call_AB_eq)

lemma s_active_AB_eq:
  "s_active_AB =
     \<lparr>connections = [''alice'' \<mapsto> 1, ''bob'' \<mapsto> 2],
      activeCalls = [(''x7k2q'', \<lparr>callId = ''x7k2q'', callerId = Some ''alice'',
                       receiverId = ''bob'', type' = Video, status = Active\<rparr>)],
      userId = (\<lambda>_. None)(1 := Some ''alice'', 2 := Some ''bob''),
      readyState = (\<lambda>_. CONNECTING)(1 := OPEN, 2 := OPEN),
      sent = [(1, CallInitiated ''x7k2q''),
              (2, IncomingCall ''x7k2q'' (Some ''alice'') ''Alice'' Video ''sdp-offer''),
              (1, CallAnswered ''x7k2q'' ''sdp-answer'')]\<rparr>"
  by (simp add: s_active_AB_def s_call_AB_eq Let_def send_if_open_def open_ws_def)

lemma close_alice_eq:
  "step (Close 1) s_active_AB =
     \<lparr>connections = [''bob'' \<mapsto> 2],
      activeCalls = [],
      userId = (\<lambda>_. None)(1 := Some ''alice'', 2 := Some ''bob''),
      readyState = (\<lambda>_. CONNECTING)(1 := CLOSED, 2 := OPEN),
      sent = [(1, CallInitiated ''x7k2q''),
              (2, IncomingCall ''x7k2q'' (Some ''alice'') ''Alice'' Video ''sdp-offer''),
              (1, CallAnswered ''x7k2q'' ''sdp-answer''),
              (2, CallEnded ''x7k2q'' (Some ''User disconnected''))]\<rparr>"
  by (simp add: s_active_AB_eq on_close_def Let_def send_if_open_def open_ws_def other_user_def
        involves_def fun_upd_twist)

lemma s_ended_AB_eq:
  "s_ended_AB =
     \<lparr>connections = [''alice'' \<mapsto> 1, ''bob'' \<mapsto> 2],
      activeCalls = [],
      userId = (\<lambda>_. None)(1 := Some ''alice'', 2 := Some ''bob''),
      readyState = (\<lambda>_. CONNECTING)(1 := OPEN, 2 := OPEN),
      sent = [(1, CallInitiated ''x7k2q''),
              (2, IncomingCall ''x7k2q'' (Some ''alice'') ''Alice'' Video ''sdp-offer''),
              (1, CallAnswered ''x7k2q'' ''sdp-answer''),
              (2, CallEnded ''x7k2q'' None)]\<rparr>"
  by (simp add: s_ended_AB_def s_active_AB_eq Let_def send_if_open_def open_ws_def other_user_def)

lemma s_call_ghost_eq:
  "s_call_ghost =
     \<lparr>connections = [''alice'' \<mapsto> 1],
      activeCalls = [(''x7k2q'', \<lparr>callId = ''x7k2q'', callerId = Some ''alice'',
                       receiverId = ''ghost'', type' = Voice, status = Ringing\<rparr>)],
      userId = (\<lambda>_. None)(1 := Some ''alice''),
      readyState = (\<lambda>_. CONNECTING)(1 := OPEN),
      sent = [(1, CallInitiated ''x7k2q''), (1, CallFailed ''User not available'')]\<rparr>"
  by (simp add: s_call_ghost_def s_alice_eq Let_def open_ws_def)

lemma close_bob_eq:
  "step (Close 2) s_active_AB =
     \<lparr>connections = [''alice'' \<mapsto> 1],
      activeCalls = [],
      userId = (\<lambda>_. None)(1 := Some ''alice'', 2 := Some ''bob''),
      readyState = (\<lambda>_. CONNECTING)(1 := OPEN, 2 := CLOSED),
      sent = [(1, CallInitiated ''x7k2q''),
              (2, IncomingCall ''x7k2q'' (Some ''alice'') ''Alice'' Video ''sdp-offer''),
              (1, CallAnswered ''x7k2q'' ''sdp-answer''),
              (1, CallEnded ''x7k2q'' (Some ''User disconnected''))]\<rparr>"
  by (simp add: s_active_AB_eq on_close_def Let_def send_if_open_def open_ws_def other_user_def
        involves_def)

lemma s_empty_id_eq:
  "s_empty_id =
     \<lparr>connections = Map.empty([] \<mapsto> 1, ''bob'' \<mapsto> 2),
      activeCalls = [(''x7k2q'', \<lparr>callId = ''x7k2q'', callerId = Some [],
                       receiverId = ''bob'', type' = Voice, status = Ringing\<rparr>)],
      userId = (\<lambda>_. None)(1 := Some [], 2 := Some ''bob''),
      readyState = (\<lambda>_. CONNECTING)(1 := OPEN, 2 := OPEN),
      sent = [(1, CallInitiated ''x7k2q''),
              (2, IncomingCall ''x7k2q'' (Some []) ''Nobody'' Voice ''sdp-offer'')]\<rparr>"
  by (simp add: s_empty_id_def init_def Let_def open_ws_def)

section \<open>The claims\<close>

subsection \<open>C1: a call offer to a receiver who cannot be reached\<close>

text \<open>
  C1, as the handler has it. When the receiver of a \<^verbatim>\<open>call-offer\<close> has no registered
  socket, or the registered socket is not open, the handler calls \<^verbatim>\<open>send\<close> exactly
  twice, both times on the caller's own socket: first \<^verbatim>\<open>call-initiated\<close> with the new
  call id, then \<^verbatim>\<open>call-failed\<close> with the reason \<^verbatim>\<open>User not available\<close>. Nothing is
  sent to any other socket.
\<close>

theorem call_offer_unreachable_receiver:
  "open_ws s (Some rcv) = None \<Longrightarrow>
   new_sends s (step (Message c (CallOffer rcv offer ct callerName) rnd) s) =
     [(c, CallInitiated rnd), (c, CallFailed ''User not available'')]"
  by (simp add: Let_def new_sends_def)

theorem call_offer_unreachable_receiver_witness:
  "connections s_alice ''ghost'' = None \<and> open_ws s_alice (Some ''ghost'') = None \<and>
   new_sends s_alice (step (Message 1 (CallOffer ''ghost'' ''sdp-offer'' Voice ''Alice'') ''x7k2q'') s_alice) =
     [(1, CallInitiated ''x7k2q''), (1, CallFailed ''User not available'')]"
proof -
  have h: "open_ws s_alice (Some ''ghost'') = None"
    by (simp add: s_alice_eq open_ws_def)
  show ?thesis
    using h call_offer_unreachable_receiver[OF h, of 1 "''sdp-offer''" Voice "''Alice''" "''x7k2q''"]
    by (simp add: s_alice_eq)
qed

theorem call_offer_unreachable_receiver_counterexample:
  "connections s_alice ''ghost'' = None \<and>
   map_of (activeCalls (step (Message 1 (CallOffer ''ghost'' ''sdp-offer'' Voice ''Alice'') ''x7k2q'') s_alice))
     ''x7k2q'' =
     Some \<lparr>callId = ''x7k2q'', callerId = Some ''alice'', receiverId = ''ghost'',
           type' = Voice, status = Ringing\<rparr> \<and>
   (1, CallFailed ''user not available'') \<notin>
     set (sent (step (Message 1 (CallOffer ''ghost'' ''sdp-offer'' Voice ''Alice'') ''x7k2q'') s_alice))"
  by (simp add: s_alice_eq Let_def open_ws_def)

subsection \<open>C2: what a disconnect does to the registry\<close>

text \<open>
  C2, as the handler has it. The close handler of a socket whose \<^verbatim>\<open>userId\<close> is set
  and not empty deletes the registry entry of that user id, whichever socket is stored
  there; every other entry stays. When \<^verbatim>\<open>userId\<close> is \<^verbatim>\<open>null\<close> or the empty string
  the registry is unchanged.
\<close>

theorem close_removes_registration:
  "(userId s c = Some u \<and> u \<noteq> [] \<longrightarrow>
      connections (step (Close c) s) = (connections s)(u := None)) \<and>
   (userId s c = None \<or> userId s c = Some [] \<longrightarrow>
      connections (step (Close c) s) = connections s)"
  by (auto simp add: on_close_def Let_def)

theorem close_removes_registration_witness:
  "userId s_alice 1 = Some ''alice'' \<and> ''alice'' \<noteq> [] \<and>
   connections (step (Close 1) s_alice) = (connections s_alice)(''alice'' := None) \<and>
   userId s_alice 2 = None \<and> connections (step (Close 2) s_alice) = connections s_alice"
  using close_removes_registration[of s_alice 1 "''alice''"]
        close_removes_registration[of s_alice 2 "''alice''"]
  by (simp add: s_alice_eq)

theorem close_removes_registration_counterexample:
  "userId s_reregistered 1 = Some ''alice'' \<and>
   connections s_reregistered ''alice'' = Some 2 \<and> (2::conn) \<noteq> 1 \<and>
   connections (step (Close 1) s_reregistered) ''alice'' = None"
  by (simp add: s_reregistered_eq on_close_def)

subsection \<open>C3: answering a call\<close>

text \<open>
  C3, as the handler has it. A \<^verbatim>\<open>call-answer\<close> takes effect if and only if a session
  with that call id is in the store, whatever its status and whoever sends the answer:
  the session's status becomes \<open>Active\<close>, every other session and the registry stay as
  they are, and \<^verbatim>\<open>call-answered\<close> with the same call id and answer is sent to the
  open socket registered for the session's caller, if there is one. When no session has
  that call id the handler changes no state and sends nothing.
\<close>

theorem call_answer_effect:
  "(map_of (activeCalls s) k = None \<longrightarrow> step (Message c (CallAnswer k answer) rnd) s = s) \<and>
   (map_of (activeCalls s) k = Some cl \<longrightarrow>
      map_of (activeCalls (step (Message c (CallAnswer k answer) rnd) s)) =
        (map_of (activeCalls s))(k \<mapsto> cl\<lparr>status := Active\<rparr>) \<and>
      new_sends s (step (Message c (CallAnswer k answer) rnd) s) =
        (case open_ws s (callerId cl) of None \<Rightarrow> [] | Some w \<Rightarrow> [(w, CallAnswered k answer)]) \<and>
      connections (step (Message c (CallAnswer k answer) rnd) s) = connections s \<and>
      userId (step (Message c (CallAnswer k answer) rnd) s) = userId s \<and>
      readyState (step (Message c (CallAnswer k answer) rnd) s) = readyState s)"
  by (simp add: Let_def AList.update_conv' new_sends_def sent_send_if_open)

theorem call_answer_effect_witness:
  "map_of (activeCalls s_call_AB) ''x7k2q'' =
     Some \<lparr>callId = ''x7k2q'', callerId = Some ''alice'', receiverId = ''bob'',
           type' = Video, status = Ringing\<rparr> \<and>
   map_of (activeCalls (step (Message 2 (CallAnswer ''x7k2q'' ''sdp-answer'') ''0'') s_call_AB)) ''x7k2q'' =
     Some \<lparr>callId = ''x7k2q'', callerId = Some ''alice'', receiverId = ''bob'',
           type' = Video, status = Active\<rparr> \<and>
   new_sends s_call_AB (step (Message 2 (CallAnswer ''x7k2q'' ''sdp-answer'') ''0'') s_call_AB) =
     [(1, CallAnswered ''x7k2q'' ''sdp-answer'')] \<and>
   map_of (activeCalls s_call_AB) ''zzzzz'' = None \<and>
   step (Message 2 (CallAnswer ''zzzzz'' ''sdp-answer'') ''0'') s_call_AB = s_call_AB"
proof -
  let ?cl = "\<lparr>callId = ''x7k2q'', callerId = Some ''alice'', receiverId = ''bob'',
           type' = Video, status = Ringing\<rparr>"
  have h: "map_of (activeCalls s_call_AB) ''x7k2q'' = Some ?cl"
    by (simp add: s_call_AB_eq)
  have o: "open_ws s_call_AB (Some ''alice'') = Some 1"
    by (simp add: s_call_AB_eq open_ws_def)
  have n: "map_of (activeCalls s_call_AB) ''zzzzz'' = None"
    by (simp add: s_call_AB_eq)
  from call_answer_effect[of s_call_AB "''x7k2q''" 2 "''sdp-answer''" "''0''" ?cl]
       call_answer_effect[of s_call_AB "''zzzzz''" 2 "''sdp-answer''" "''0''" ?cl] h o n
  show ?thesis by simp
qed

theorem call_answer_effect_counterexample:
  "userId s_carol 3 = Some ''carol'' \<and>
   map_of (activeCalls s_carol) ''x7k2q'' =
     Some \<lparr>callId = ''x7k2q'', callerId = Some ''alice'', receiverId = ''bob'',
           type' = Video, status = Ringing\<rparr> \<and>
   map_of (activeCalls (step (Message 3 (CallAnswer ''x7k2q'' ''sdp-answer'') ''0'') s_carol)) ''x7k2q'' =
     Some \<lparr>callId = ''x7k2q'', callerId = Some ''alice'', receiverId = ''bob'',
           type' = Video, status = Active\<rparr> \<and>
   sent (step (Message 3 (CallAnswer ''x7k2q'' ''sdp-answer'') ''0'') s_carol) =
     sent s_carol @ [(1, CallAnswered ''x7k2q'' ''sdp-answer'')]"
  by (simp add: s_carol_eq Let_def send_if_open_def open_ws_def)

subsection \<open>C4: a close ends the calls of its user\<close>

text \<open>
  C4, as the handler has it. When the socket of a user with a non-empty user id closes,
  every session in which that user is caller or receiver is removed from the store, the
  other sessions stay in their order, and for each removed session exactly one message
  about its call id is sent: \<^verbatim>\<open>call-ended\<close> with that call id and the reason
  \<^verbatim>\<open>User disconnected\<close>, to the open socket registered for the other participant.
  When the other participant has no open registered socket, nothing is sent for that
  session.
\<close>

theorem close_ends_calls_of_user:
  assumes "userId s c = Some u" "u \<noteq> []" "distinct_keys s"
  shows "activeCalls (step (Close c) s) = filter (\<lambda>e. \<not> involves u (snd e)) (activeCalls s) \<and>
         list_all (\<lambda>e. \<not> involves u (snd e)) (activeCalls (step (Close c) s)) \<and>
         ((k, cl) \<in> set (activeCalls s) \<and> involves u cl \<longrightarrow>
            about k (new_sends s (step (Close c) s)) =
              (case open_ws (step (Close c) s) (other_user cl (Some u)) of
                 None \<Rightarrow> []
               | Some w \<Rightarrow> [(w, CallEnded k (Some ''User disconnected''))]))"
proof -
  have a: "activeCalls (step (Close c) s) = filter (\<lambda>e. \<not> involves u (snd e)) (activeCalls s)"
    using assms by (rule activeCalls_close_distinct)
  then have b: "list_all (\<lambda>e. \<not> involves u (snd e)) (activeCalls (step (Close c) s))"
    by (simp add: list_all_iff)
  have c: "about k (new_sends s (step (Close c) s)) =
              (case open_ws (step (Close c) s) (other_user cl (Some u)) of
                 None \<Rightarrow> []
               | Some w \<Rightarrow> [(w, CallEnded k (Some ''User disconnected''))])"
    if "(k, cl) \<in> set (activeCalls s)" "involves u cl"
    using assms that by (rule about_close_sends)
  from a b c show ?thesis by blast
qed

theorem close_ends_calls_of_user_witness:
  "userId s_active_AB 1 = Some ''alice'' \<and> ''alice'' \<noteq> [] \<and> distinct_keys s_active_AB \<and>
   (''x7k2q'', \<lparr>callId = ''x7k2q'', callerId = Some ''alice'', receiverId = ''bob'',
        type' = Video, status = Active\<rparr>) \<in> set (activeCalls s_active_AB) \<and>
   open_ws (step (Close 1) s_active_AB) (Some ''bob'') = Some 2 \<and>
   activeCalls (step (Close 1) s_active_AB) = [] \<and>
   about ''x7k2q'' (new_sends s_active_AB (step (Close 1) s_active_AB)) =
     [(2, CallEnded ''x7k2q'' (Some ''User disconnected''))]"
proof -
  let ?cl = "\<lparr>callId = ''x7k2q'', callerId = Some ''alice'', receiverId = ''bob'',
        type' = Video, status = Active\<rparr>"
  have u: "userId s_active_AB 1 = Some ''alice''" and ne: "''alice'' \<noteq> []"
    and d: "distinct_keys s_active_AB"
    by (simp_all add: s_active_AB_eq distinct_keys_def)
  have m: "(''x7k2q'', ?cl) \<in> set (activeCalls s_active_AB)" and i: "involves ''alice'' ?cl"
    by (simp_all add: s_active_AB_eq involves_def)
  have o: "open_ws (step (Close 1) s_active_AB) (Some ''bob'') = Some 2"
    unfolding close_alice_eq by (simp add: open_ws_def)
  have ou: "other_user ?cl (Some ''alice'') = Some ''bob''"
    by (simp add: other_user_def)
  have f: "filter (\<lambda>e. \<not> involves ''alice'' (snd e)) (activeCalls s_active_AB) = []"
    by (simp add: s_active_AB_eq involves_def)
  from close_ends_calls_of_user[OF u ne d, of "''x7k2q''" ?cl] m i o ou f u ne d
  show ?thesis by simp
qed

theorem close_ends_calls_of_user_counterexample:
  "userId s_active_AB 1 = Some ''alice'' \<and>
   new_sends s_active_AB (step (Close 1) s_active_AB) =
     [(2, CallEnded ''x7k2q'' (Some ''User disconnected''))] \<and>
   (2, CallEnded ''x7k2q'' (Some ''peer disconnected'')) \<notin>
     set (sent (step (Close 1) s_active_AB)) \<and>
   userId s_empty_id 1 = Some [] \<and> connections s_empty_id [] = Some 1 \<and>
   activeCalls (step (Close 1) s_empty_id) =
     [(''x7k2q'', \<lparr>callId = ''x7k2q'', callerId = Some [],
                       receiverId = ''bob'', type' = Voice, status = Ringing\<rparr>)] \<and>
   new_sends s_empty_id (step (Close 1) s_empty_id) = []"
proof -
  have a: "userId s_active_AB 1 = Some ''alice'' \<and>
   new_sends s_active_AB (step (Close 1) s_active_AB) =
     [(2, CallEnded ''x7k2q'' (Some ''User disconnected''))] \<and>
   (2, CallEnded ''x7k2q'' (Some ''peer disconnected'')) \<notin>
     set (sent (step (Close 1) s_active_AB))"
    unfolding close_alice_eq by (simp add: s_active_AB_eq new_sends_def)
  have b: "userId s_empty_id 1 = Some [] \<and> connections s_empty_id [] = Some 1 \<and>
   activeCalls (step (Close 1) s_empty_id) =
     [(''x7k2q'', \<lparr>callId = ''x7k2q'', callerId = Some [],
                       receiverId = ''bob'', type' = Voice, status = Ringing\<rparr>)] \<and>
   new_sends s_empty_id (step (Close 1) s_empty_id) = []"
    by (simp add: s_empty_id_eq on_close_def new_sends_def)
  from a b show ?thesis by blast
qed

subsection \<open>C5: ending a call twice\<close>

text \<open>
  C5, as the handlers have it. Let no stored session have the call id \<open>k\<close> (it was
  never created, or it has been ended). A \<^verbatim>\<open>call-end\<close> or \<^verbatim>\<open>call-reject\<close>
  naming \<open>k\<close> then leaves the whole state unchanged, the log of sends included. A
  close of a socket still does its own work on the registry and on the other calls of
  its user, but it leaves \<open>k\<close> absent, sends nothing about \<open>k\<close> and sends no
  \<^verbatim>\<open>call-failed\<close> to anyone.

  After an event that ends call \<open>k\<close> (a hang-up or reject naming it, or the close of
  the caller's or the receiver's socket) no session has the id \<open>k\<close>, so a second
  termination event is handled as above. The two events together send at most one
  message about \<open>k\<close>: when the first event comes from the caller, its notice goes to
  the open socket registered for the receiver; when it comes from the receiver, to the
  open socket registered for the caller; and when that other party has no open
  registered socket, nothing about \<open>k\<close> is sent at all.
\<close>

theorem termination_idempotent:
  assumes "termination_event k e2"
  shows "(map_of (activeCalls s) k = None \<longrightarrow>
            map_of (activeCalls (step e2 s)) k = None \<and>
            about k (new_sends s (step e2 s)) = [] \<and>
            list_all (\<lambda>wm. \<not> is_error (snd wm)) (new_sends s (step e2 s)) \<and>
            ((\<forall>c. e2 \<noteq> Close c) \<longrightarrow> step e2 s = s)) \<and>
         (distinct_keys s \<and> terminates k e1 s \<longrightarrow>
            map_of (activeCalls (step e1 s)) k = None \<and>
            map_of (activeCalls (step e2 (step e1 s))) k = None \<and>
            about k (new_sends (step e1 s) (step e2 (step e1 s))) = [] \<and>
            list_all (\<lambda>wm. \<not> is_error (snd wm))
              (new_sends (step e1 s) (step e2 (step e1 s))) \<and>
            ((\<forall>c. e2 \<noteq> Close c) \<longrightarrow> step e2 (step e1 s) = step e1 s) \<and>
            length (about k (new_sends s (step e2 (step e1 s)))) \<le> 1 \<and>
            (map_of (activeCalls s) k = None \<longrightarrow>
               about k (new_sends s (step e2 (step e1 s))) = []) \<and>
            (map_of (activeCalls s) k = Some cl \<and> ender e1 s = callerId cl \<longrightarrow>
               about k (new_sends s (step e2 (step e1 s))) =
                 (case open_ws (step e1 s) (Some (receiverId cl)) of
                    None \<Rightarrow> []
                  | Some w \<Rightarrow> [(w, notice k e1)])) \<and>
            (map_of (activeCalls s) k = Some cl \<and> ender e1 s \<noteq> callerId cl \<and>
             ender e1 s = Some (receiverId cl) \<longrightarrow>
               about k (new_sends s (step e2 (step e1 s))) =
                 (case open_ws (step e1 s) (callerId cl) of
                    None \<Rightarrow> []
                  | Some w \<Rightarrow> [(w, notice k e1)])))"
proof -
  have A: "map_of (activeCalls s) k = None \<longrightarrow>
            map_of (activeCalls (step e2 s)) k = None \<and>
            about k (new_sends s (step e2 s)) = [] \<and>
            list_all (\<lambda>wm. \<not> is_error (snd wm)) (new_sends s (step e2 s)) \<and>
            ((\<forall>c. e2 \<noteq> Close c) \<longrightarrow> step e2 s = s)"
    using absent_termination_dropped[OF _ assms] by blast
  have B: "map_of (activeCalls (step e1 s)) k = None \<and>
            map_of (activeCalls (step e2 (step e1 s))) k = None \<and>
            about k (new_sends (step e1 s) (step e2 (step e1 s))) = [] \<and>
            list_all (\<lambda>wm. \<not> is_error (snd wm))
              (new_sends (step e1 s) (step e2 (step e1 s))) \<and>
            ((\<forall>c. e2 \<noteq> Close c) \<longrightarrow> step e2 (step e1 s) = step e1 s) \<and>
            length (about k (new_sends s (step e2 (step e1 s)))) \<le> 1 \<and>
            (map_of (activeCalls s) k = None \<longrightarrow>
               about k (new_sends s (step e2 (step e1 s))) = []) \<and>
            (map_of (activeCalls s) k = Some cl \<and> ender e1 s = callerId cl \<longrightarrow>
               about k (new_sends s (step e2 (step e1 s))) =
                 (case open_ws (step e1 s) (Some (receiverId cl)) of
                    None \<Rightarrow> []
                  | Some w \<Rightarrow> [(w, notice k e1)])) \<and>
            (map_of (activeCalls s) k = Some cl \<and> ender e1 s \<noteq> callerId cl \<and>
             ender e1 s = Some (receiverId cl) \<longrightarrow>
               about k (new_sends s (step e2 (step e1 s))) =
                 (case open_ws (step e1 s) (callerId cl) of
                    None \<Rightarrow> []
                  | Some w \<Rightarrow> [(w, notice k e1)]))"
    if b: "distinct_keys s \<and> terminates k e1 s"
  proof -
    from b have gone: "map_of (activeCalls (step e1 s)) k = None"
      by (simp add: terminates_removes)
    note second = absent_termination_dropped[OF gone assms]
    from second have quiet: "about k (new_sends (step e1 s) (step e2 (step e1 s))) = []"
      by blast
    have "about k (new_sends s (step e2 (step e1 s))) = about k (new_sends s (step e1 s))"
      unfolding new_sends_trans[of s e2 e1] about_append quiet by simp
    also have "\<dots> =
           (case map_of (activeCalls s) k of
              None \<Rightarrow> []
            | Some cl \<Rightarrow>
                (case open_ws (step e1 s) (other_user cl (ender e1 s)) of
                   None \<Rightarrow> []
                 | Some w \<Rightarrow> [(w, notice k e1)]))"
      using b by (simp add: first_notification)
    finally have both: "about k (new_sends s (step e2 (step e1 s))) =
           (case map_of (activeCalls s) k of
              None \<Rightarrow> []
            | Some cl \<Rightarrow>
                (case open_ws (step e1 s) (other_user cl (ender e1 s)) of
                   None \<Rightarrow> []
                 | Some w \<Rightarrow> [(w, notice k e1)]))" .
    have le: "length (about k (new_sends s (step e2 (step e1 s)))) \<le> 1"
      unfolding both by (simp split: option.splits)
    have none: "map_of (activeCalls s) k = None \<longrightarrow>
               about k (new_sends s (step e2 (step e1 s))) = []"
      unfolding both by simp
    have caller: "map_of (activeCalls s) k = Some cl \<and> ender e1 s = callerId cl \<longrightarrow>
               about k (new_sends s (step e2 (step e1 s))) =
                 (case open_ws (step e1 s) (Some (receiverId cl)) of
                    None \<Rightarrow> []
                  | Some w \<Rightarrow> [(w, notice k e1)])"
      unfolding both by (simp add: other_user_def)
    have receiver: "map_of (activeCalls s) k = Some cl \<and> ender e1 s \<noteq> callerId cl \<and>
             ender e1 s = Some (receiverId cl) \<longrightarrow>
               about k (new_sends s (step e2 (step e1 s))) =
                 (case open_ws (step e1 s) (callerId cl) of
                    None \<Rightarrow> []
                  | Some w \<Rightarrow> [(w, notice k e1)])"
      unfolding both by (simp add: other_user_def)
    from gone second le none caller receiver show ?thesis by blast
  qed
  from A B show ?thesis by blast
qed

theorem termination_idempotent_witness:
  "about ''x7k2q''
     (new_sends s_call_AB
        (step (Close 2) (step (Message 2 (CallReject ''x7k2q'') ''0'') s_call_AB))) =
     [(1, CallRejected ''x7k2q'')] \<and>
   about ''x7k2q''
     (new_sends s_active_AB
        (step (Message 2 (CallEnd ''x7k2q'') ''0'') (step (Close 1) s_active_AB))) =
     [(2, CallEnded ''x7k2q'' (Some ''User disconnected''))] \<and>
   step (Message 2 (CallEnd ''x7k2q'') ''0'') (step (Close 1) s_active_AB) =
     step (Close 1) s_active_AB \<and>
   about ''x7k2q''
     (new_sends s_active_AB (step (Close 1) (step (Close 2) s_active_AB))) =
     [(1, CallEnded ''x7k2q'' (Some ''User disconnected''))] \<and>
   map_of (activeCalls s_active_AB) ''zzzzz'' = None \<and>
   step (Message 2 (CallReject ''zzzzz'') ''0'') s_active_AB = s_active_AB"
proof -
  let ?ringing = "\<lparr>callId = ''x7k2q'', callerId = Some ''alice'', receiverId = ''bob'',
                   type' = Video, status = Ringing\<rparr>"
  let ?active = "\<lparr>callId = ''x7k2q'', callerId = Some ''alice'', receiverId = ''bob'',
                  type' = Video, status = Active\<rparr>"
  let ?reject = "Message 2 (CallReject ''x7k2q'') ''0''"
  let ?hangup = "Message 2 (CallEnd ''x7k2q'') ''0''"
  have d: "distinct_keys s_call_AB" "distinct_keys s_active_AB"
    by (simp_all add: s_call_AB_eq s_active_AB_eq distinct_keys_def)
  have m: "map_of (activeCalls s_call_AB) ''x7k2q'' = Some ?ringing"
    "map_of (activeCalls s_active_AB) ''x7k2q'' = Some ?active"
    "map_of (activeCalls s_active_AB) ''zzzzz'' = None"
    by (simp_all add: s_call_AB_eq s_active_AB_eq)
  have u: "userId s_call_AB 2 = Some ''bob''" "userId s_active_AB 1 = Some ''alice''"
    "userId s_active_AB 2 = Some ''bob''"
    by (simp_all add: s_call_AB_eq s_active_AB_eq)
  have o1: "open_ws (step ?reject s_call_AB) (Some ''alice'') = Some 1"
    by (simp add: s_call_AB_eq Let_def send_if_open_def open_ws_def other_user_def)
  have o2: "open_ws (step (Close 1) s_active_AB) (Some ''bob'') = Some 2"
    unfolding close_alice_eq by (simp add: open_ws_def)
  have o3: "open_ws (step (Close 2) s_active_AB) (Some ''alice'') = Some 1"
    unfolding close_bob_eq by (simp add: open_ws_def)
  have a: "about ''x7k2q'' (new_sends s_call_AB (step (Close 2) (step ?reject s_call_AB))) =
             [(1, CallRejected ''x7k2q'')]"
    using termination_idempotent[of "''x7k2q''" "Close 2" s_call_AB ?reject ?ringing] d m u o1
    by (simp del: step.simps)
  have b: "about ''x7k2q'' (new_sends s_active_AB (step ?hangup (step (Close 1) s_active_AB))) =
             [(2, CallEnded ''x7k2q'' (Some ''User disconnected''))] \<and>
           step ?hangup (step (Close 1) s_active_AB) = step (Close 1) s_active_AB"
    using termination_idempotent[of "''x7k2q''" ?hangup s_active_AB "Close 1" ?active] d m u o2
    by (auto simp del: step.simps)
  have c: "about ''x7k2q'' (new_sends s_active_AB (step (Close 1) (step (Close 2) s_active_AB))) =
             [(1, CallEnded ''x7k2q'' (Some ''User disconnected''))]"
    using termination_idempotent[of "''x7k2q''" "Close 1" s_active_AB "Close 2" ?active] d m u o3
    by (simp del: step.simps)
  have e: "step (Message 2 (CallReject ''zzzzz'') ''0'') s_active_AB = s_active_AB"
    using termination_idempotent[of "''zzzzz''" "Message 2 (CallReject ''zzzzz'') ''0''"
            s_active_AB "Connection 0" ?active] m
    by (simp del: step.simps)
  from a b c e m(3) show ?thesis by blast
qed

theorem termination_idempotent_counterexample:
  "map_of (activeCalls s_ended_AB) ''x7k2q'' = None \<and>
   connections s_ended_AB ''alice'' = Some 1 \<and>
   connections (step (Close 1) s_ended_AB) ''alice'' = None \<and>
   map_of (activeCalls s_call_ghost) ''x7k2q'' =
     Some \<lparr>callId = ''x7k2q'', callerId = Some ''alice'', receiverId = ''ghost'',
           type' = Voice, status = Ringing\<rparr> \<and>
   userId s_call_ghost 1 = Some ''alice'' \<and>
   new_sends s_call_ghost
     (step (Close 1) (step (Message 1 (CallEnd ''x7k2q'') ''0'') s_call_ghost)) = []"
  by (simp add: s_ended_AB_eq s_call_ghost_eq on_close_def Let_def send_if_open_def open_ws_def
        other_user_def new_sends_def)

subsection \<open>C6: the lifecycle of a call id\<close>

text \<open>
  C6, as the handlers have it. Over any sequence of events in which no
  \<^verbatim>\<open>call-offer\<close> draws the call id \<open>k\<close> again, the observed states of \<open>k\<close>,
  with repetitions dropped, are a subsequence of \<open>Ringing\<close>, \<open>Active\<close>, \<open>Ended\<close>;
  once \<open>k\<close> is ended it stays ended; and a \<^verbatim>\<open>call-answer\<close>, \<^verbatim>\<open>call-reject\<close>,
  \<^verbatim>\<open>call-end\<close> or \<^verbatim>\<open>ice-candidate\<close> naming an ended \<open>k\<close> changes no state and
  sends nothing.
\<close>

theorem call_lifecycle:
  assumes "no_ended s" "list_all (\<lambda>e. \<not> draws k e) evs"
  shows "subseq (remdups_adj (states k evs s)) [Ringing, Active, Ended] \<and>
         (call_state s k = Ended \<longrightarrow> list_all (\<lambda>st. st = Ended) (states k evs s)) \<and>
         (call_state s k = Ended \<and> references k m \<longrightarrow> step (Message c m rnd) s = s)"
proof -
  obtain xs where xs: "states k evs s = call_state s k # xs"
    using states_hd by blast
  from states_sorted[OF assms] have "subseq (remdups_adj (states k evs s)) (lifecycle_from (call_state s k))"
    unfolding xs by (rule sorted_lifecycle)
  then have a: "subseq (remdups_adj (states k evs s)) [Ringing, Active, Ended]"
    using lifecycle_from_subseq by (rule subseq_order.trans)
  have b: "call_state s k = Ended \<longrightarrow> list_all (\<lambda>st. st = Ended) (states k evs s)"
    using states_ended[OF assms] by blast
  have c: "step (Message c m rnd) s = s" if "call_state s k = Ended" "references k m"
  proof -
    from that(1) assms(1) have "map_of (activeCalls s) k = None"
      by (simp add: call_state_absent)
    with that(2) show ?thesis by (cases m) simp_all
  qed
  from a b c show ?thesis by blast
qed

theorem call_lifecycle_witness:
  "no_ended s_call_AB \<and>
   list_all (\<lambda>e. \<not> draws ''x7k2q'' e)
     [Message 2 (CallAnswer ''x7k2q'' ''sdp-answer'') ''0'',
      Message 1 (IceCandidate ''x7k2q'' ''candidate:1 1 udp'') ''0'',
      Message 1 (CallEnd ''x7k2q'') ''0'',
      Message 2 (CallAnswer ''x7k2q'' ''sdp-answer'') ''0'',
      Close 2] \<and>
   states ''x7k2q''
     [Message 2 (CallAnswer ''x7k2q'' ''sdp-answer'') ''0'',
      Message 1 (IceCandidate ''x7k2q'' ''candidate:1 1 udp'') ''0'',
      Message 1 (CallEnd ''x7k2q'') ''0'',
      Message 2 (CallAnswer ''x7k2q'' ''sdp-answer'') ''0'',
      Close 2] s_call_AB = [Ringing, Active, Active, Ended, Ended, Ended] \<and>
   subseq (remdups_adj [Ringing, Active, Active, Ended, Ended, Ended]) [Ringing, Active, Ended] \<and>
   no_ended s_ended_AB \<and> call_state s_ended_AB ''x7k2q'' = Ended \<and>
   references ''x7k2q'' (IceCandidate ''x7k2q'' ''candidate:2 1 udp'') \<and>
   step (Message 2 (IceCandidate ''x7k2q'' ''candidate:2 1 udp'') ''0'') s_ended_AB = s_ended_AB"
proof -
  let ?evs = "[Message 2 (CallAnswer ''x7k2q'' ''sdp-answer'') ''0'',
      Message 1 (IceCandidate ''x7k2q'' ''candidate:1 1 udp'') ''0'',
      Message 1 (CallEnd ''x7k2q'') ''0'',
      Message 2 (CallAnswer ''x7k2q'' ''sdp-answer'') ''0'',
      Close 2]"
  have n1: "no_ended s_call_AB" and n2: "no_ended s_ended_AB"
    by (simp_all add: s_call_AB_eq s_ended_AB_eq no_ended_def)
  have l: "list_all (\<lambda>e. \<not> draws ''x7k2q'' e) ?evs" and l0: "list_all (\<lambda>e. \<not> draws ''x7k2q'' e) []"
    by simp_all
  have st: "states ''x7k2q'' ?evs s_call_AB = [Ringing, Active, Active, Ended, Ended, Ended]"
    by (simp add: s_call_AB_eq call_state_def Let_def send_if_open_def open_ws_def other_user_def
          on_close_def)
  have e: "call_state s_ended_AB ''x7k2q'' = Ended"
    by (simp add: s_ended_AB_eq call_state_def)
  have r: "references ''x7k2q'' (IceCandidate ''x7k2q'' ''candidate:2 1 udp'')"
    by simp
  from call_lifecycle[OF n1 l, of "Unknown" 0 "''0''"]
       call_lifecycle[OF n2 l0, of "IceCandidate ''x7k2q'' ''candidate:2 1 udp''" 2 "''0''"]
       n1 n2 l st e r
  show ?thesis by (simp del: step.simps)
qed

theorem call_lifecycle_counterexample:
  "states ''x7k2q''
     [Message 2 (CallAnswer ''x7k2q'' ''sdp-answer'') ''0'',
      Message 3 (CallOffer ''bob'' ''sdp-offer'' Voice ''Carol'') ''x7k2q''] s_carol =
     [Ringing, Active, Ringing] \<and>
   \<not> subseq (remdups_adj [Ringing, Active, Ringing]) [Ringing, Active, Ended] \<and>
   call_state s_ended_AB ''x7k2q'' = Ended \<and>
   call_state (step (Message 1 (CallOffer ''bob'' ''sdp-offer'' Video ''Alice'') ''x7k2q'') s_ended_AB)
     ''x7k2q'' = Ringing"
  by (simp add: s_carol_eq s_ended_AB_eq call_state_def Let_def send_if_open_def open_ws_def)

subsection \<open>C7: relaying ICE candidates\<close>



subsection \<open>C8: the call id of a new session\<close>

text \<open>
  C8, as the handler has it. The call id is drawn at random and not compared with the
  store. The store after a \<^verbatim>\<open>call-offer\<close> maps the drawn id to the new \<open>Ringing\<close>
  session and every other id as before. When the drawn id is not in the store, the new
  session is appended and every stored session is kept; when it is the id of a stored
  session, that session is overwritten in place by the new one.
\<close>

theorem call_offer_stores_session:
  "map_of (activeCalls (step (Message c (CallOffer rcv offer ct callerName) rnd) s)) =
     (map_of (activeCalls s))
       (rnd \<mapsto> \<lparr>callId = rnd, callerId = userId s c, receiverId = rcv,
                 type' = ct, status = Ringing\<rparr>) \<and>
   (rnd \<notin> fst ` set (activeCalls s) \<longrightarrow>
      activeCalls (step (Message c (CallOffer rcv offer ct callerName) rnd) s) =
        activeCalls s @
        [(rnd, \<lparr>callId = rnd, callerId = userId s c, receiverId = rcv,
                 type' = ct, status = Ringing\<rparr>)]) \<and>
   (rnd \<in> fst ` set (activeCalls s) \<longrightarrow>
      map fst (activeCalls (step (Message c (CallOffer rcv offer ct callerName) rnd) s)) =
        map fst (activeCalls s))"
  by (cases "open_ws s (Some rcv)")
     (simp_all add: Let_def AList.update_conv' update_fresh update_keys_present)

theorem call_offer_stores_session_witness:
  "''x7k2q'' \<in> fst ` set (activeCalls s_carol) \<and>
   map fst (activeCalls (step (Message 3 (CallOffer ''bob'' ''sdp-offer'' Voice ''Carol'') ''x7k2q'') s_carol)) =
     [''x7k2q''] \<and>
   ''m4p1z'' \<notin> fst ` set (activeCalls s_carol) \<and>
   activeCalls (step (Message 3 (CallOffer ''bob'' ''sdp-offer'' Voice ''Carol'') ''m4p1z'') s_carol) =
     activeCalls s_carol @
       [(''m4p1z'', \<lparr>callId = ''m4p1z'', callerId = Some ''carol'', receiverId = ''bob'',
                 type' = Voice, status = Ringing\<rparr>)]"
  using call_offer_stores_session[of 3 "''bob''" "''sdp-offer''" Voice "''Carol''" "''x7k2q''" s_carol]
        call_offer_stores_session[of 3 "''bob''" "''sdp-offer''" Voice "''Carol''" "''m4p1z''" s_carol]
  by (simp add: s_carol_eq)

theorem call_offer_stores_session_counterexample:
  "map_of (activeCalls s_carol) ''x7k2q'' =
     Some \<lparr>callId = ''x7k2q'', callerId = Some ''alice'', receiverId = ''bob'',
           type' = Video, status = Ringing\<rparr> \<and>
   (3, CallInitiated ''x7k2q'') \<in>
     set (new_sends s_carol
       (step (Message 3 (CallOffer ''bob'' ''sdp-offer'' Voice ''Carol'') ''x7k2q'') s_carol)) \<and>
   activeCalls (step (Message 3 (CallOffer ''bob'' ''sdp-offer'' Voice ''Carol'') ''x7k2q'') s_carol) =
     [(''x7k2q'', \<lparr>callId = ''x7k2q'', callerId = Some ''carol'', receiverId = ''bob'',
                 type' = Voice, status = Ringing\<rparr>)]"
  by (simp add: s_carol_eq Let_def open_ws_def new_sends_def)

subsection \<open>C9: caller and receiver of a session\<close>

text \<open>
  C9, as the handler has it. The session a \<^verbatim>\<open>call-offer\<close> creates has the sender's
  \<^verbatim>\<open>userId\<close> as caller and the receiver id of the message as receiver, whether or not
  they are the same user. No handler changes the caller or the receiver of a stored
  session, so caller \<open>\<noteq>\<close> receiver holds for all stored sessions after every event
  that is not a call offer to the sender's own user id, if it held before.
\<close>

theorem caller_differs_from_receiver:
  "map_of (activeCalls (step (Message c (CallOffer rcv offer ct callerName) rnd) s)) rnd =
     Some \<lparr>callId = rnd, callerId = userId s c, receiverId = rcv,
           type' = ct, status = Ringing\<rparr> \<and>
   (callers_differ s \<and> \<not> self_offer e s \<longrightarrow> callers_differ (step e s))"
proof -
  have a: "map_of (activeCalls (step (Message c (CallOffer rcv offer ct callerName) rnd) s)) rnd =
     Some \<lparr>callId = rnd, callerId = userId s c, receiverId = rcv,
           type' = ct, status = Ringing\<rparr>"
    by (cases "open_ws s (Some rcv)") (simp_all add: Let_def AList.update_conv')
  have b: "callers_differ (step e s)" if cd: "callers_differ s" and ns: "\<not> self_offer e s"
  proof (cases e)
    case (Connection c')
    with cd show ?thesis by (simp add: callers_differ_def)
  next
    case (Message c' m r)
    with cd ns show ?thesis by (simp add: callers_differ_on_message)
  next
    case (Close c')
    from cd have "callers_differ (s\<lparr>readyState := (readyState s)(c' := CLOSED)\<rparr>)"
      by (simp add: callers_differ_def)
    with Close show ?thesis by (simp add: callers_differ_on_close)
  qed
  from a b show ?thesis by blast
qed

theorem caller_differs_from_receiver_witness:
  "callers_differ s_alice \<and>
   \<not> self_offer (Message 1 (CallOffer ''bob'' ''sdp-offer'' Video ''Alice'') ''x7k2q'') s_alice \<and>
   callers_differ (step (Message 1 (CallOffer ''bob'' ''sdp-offer'' Video ''Alice'') ''x7k2q'') s_alice) \<and>
   map_of (activeCalls (step (Message 1 (CallOffer ''bob'' ''sdp-offer'' Video ''Alice'') ''x7k2q'') s_alice))
     ''x7k2q'' =
     Some \<lparr>callId = ''x7k2q'', callerId = Some ''alice'', receiverId = ''bob'',
           type' = Video, status = Ringing\<rparr>"
proof -
  have cd: "callers_differ s_alice"
    by (simp add: callers_differ_def s_alice_eq)
  have ns: "\<not> self_offer (Message 1 (CallOffer ''bob'' ''sdp-offer'' Video ''Alice'') ''x7k2q'') s_alice"
    by (simp add: s_alice_eq)
  from caller_differs_from_receiver[of 1 "''bob''" "''sdp-offer''" Video "''Alice''" "''x7k2q''" s_alice
         "Message 1 (CallOffer ''bob'' ''sdp-offer'' Video ''Alice'') ''x7k2q''"] cd ns
  show ?thesis by (simp add: s_alice_eq)
qed

theorem caller_differs_from_receiver_counterexample:
  "userId s_alice 1 = Some ''alice'' \<and>
   activeCalls (step (Message 1 (CallOffer ''alice'' ''sdp-offer'' Video ''Alice'') ''x7k2q'') s_alice) =
     [(''x7k2q'', \<lparr>callId = ''x7k2q'', callerId = Some ''alice'', receiverId = ''alice'',
           type' = Video, status = Ringing\<rparr>)]"
  by (simp add: s_alice_eq Let_def open_ws_def)

subsection \<open>C10: no terminal session stays in the store\<close>

text \<open>
  C10. The store of the initial state holds no session in status \<open>Ended\<close>; every
  handler run (connect, message, close) keeps that; so after every sequence of events
  from the initial state every stored session is \<open>Ringing\<close> or \<open>Active\<close>. The
  handlers of \<^verbatim>\<open>call-end\<close> and \<^verbatim>\<open>call-reject\<close> set \<open>Ended\<close> and delete the entry in
  the same run.
\<close>

theorem no_terminal_session_persists:
  "no_ended init \<and> (no_ended s \<longrightarrow> no_ended (step e s)) \<and> no_ended (run evs init)"
proof -
  have i: "no_ended init" by (simp add: no_ended_def init_def)
  then show ?thesis by (simp add: no_ended_step no_ended_run)
qed

theorem no_terminal_session_persists_witness:
  "no_ended s_call_AB \<and>
   no_ended (step (Message 2 (CallReject ''x7k2q'') ''0'') s_call_AB) \<and>
   activeCalls (step (Message 2 (CallReject ''x7k2q'') ''0'') s_call_AB) = []"
proof -
  have "no_ended s_call_AB"
    using no_terminal_session_persists[of init "Connection 0"
      "[Connection 1, Message 1 (Register ''alice'') ''0'',
          Connection 2, Message 2 (Register ''bob'') ''0'',
          Message 1 (CallOffer ''bob'' ''sdp-offer'' Video ''Alice'') ''x7k2q'']"]
    by (simp add: s_call_AB_def)
  moreover from this have "no_ended (step (Message 2 (CallReject ''x7k2q'') ''0'') s_call_AB)"
    using no_terminal_session_persists[of s_call_AB "Message 2 (CallReject ''x7k2q'') ''0''" "[]"]
    by simp
  moreover have "activeCalls (step (Message 2 (CallReject ''x7k2q'') ''0'') s_call_AB) = []"
    by (simp add: s_call_AB_eq Let_def send_if_open_def open_ws_def other_user_def)
  ultimately show ?thesis by simp
qed

end
